theory Spec2Isabelle
  imports Main "HOL-Library.Monad_Syntax"
begin

section \<open>Characters and the character classes of Python's \<open>re\<close>\<close>

text \<open>
  The lexer's patterns are \<open>str\<close> patterns, so they work on code points. A \<open>string\<close> is
  read here as a sequence of code points below 256, one \<open>char\<close> each; \<open>length\<close> is Python's
  \<open>len\<close>. The classes \<open>\s\<close>, \<open>\d\<close> and \<open>\w\<close> are the Unicode ones, restricted to that range.
\<close>

definition ord :: "char \<Rightarrow> nat" where
  "ord c = of_char c"

definition is_space :: "char \<Rightarrow> bool" where
  \<comment> \<open>\<open>\s\<close>: tab, line feed, vertical tab, form feed, carriage return, the separators
      U+001C to U+001F, space, U+0085 and U+00A0.\<close>
  "is_space c = ((9 \<le> ord c \<and> ord c \<le> 13) \<or> (28 \<le> ord c \<and> ord c \<le> 32) \<or> ord c = 133 \<or> ord c = 160)"

definition is_digit :: "char \<Rightarrow> bool" where
  \<comment> \<open>\<open>\d\<close>: the decimal digits; below 256 these are \<open>0\<close> to \<open>9\<close>.\<close>
  "is_digit c = (48 \<le> ord c \<and> ord c \<le> 57)"

definition is_word :: "char \<Rightarrow> bool" where
  \<comment> \<open>\<open>\w\<close>: the alphanumeric code points (Python's \<open>isalnum\<close>) and the underscore.\<close>
  "is_word c =
     (is_digit c \<or> (65 \<le> ord c \<and> ord c \<le> 90) \<or> ord c = 95 \<or> (97 \<le> ord c \<and> ord c \<le> 122)
      \<or> ord c = 170 \<or> ord c = 178 \<or> ord c = 179 \<or> ord c = 181 \<or> ord c = 185 \<or> ord c = 186
      \<or> (188 \<le> ord c \<and> ord c \<le> 190) \<or> (192 \<le> ord c \<and> ord c \<le> 214)
      \<or> (216 \<le> ord c \<and> ord c \<le> 246) \<or> 248 \<le> ord c)"

abbreviation LF :: char where "LF \<equiv> CHR 0x0A"
abbreviation TAB :: char where "TAB \<equiv> CHR 0x09"
abbreviation CR :: char where "CR \<equiv> CHR 0x0D"
abbreviation DQUOTE :: char where "DQUOTE \<equiv> CHR 0x22"

section \<open>The fragment of \<open>re\<close> syntax that the rule tables use\<close>

datatype item =
    Ch char          \<comment> \<open>a character inside brackets\<close>
  | Rg char char     \<comment> \<open>a range \<open>a-z\<close> inside brackets\<close>
  | Esc_s            \<comment> \<open>\<open>\s\<close>\<close>
  | Esc_d            \<comment> \<open>\<open>\d\<close>\<close>

datatype cls =
    In "item list"      \<comment> \<open>\<open>[...]\<close>, and \<open>\s\<close>, \<open>\d\<close> outside brackets\<close>
  | NotIn "item list"   \<comment> \<open>\<open>[^...]\<close>\<close>

datatype rx =
    Lit string     \<comment> \<open>literal text\<close>
  | Cls cls        \<comment> \<open>one character of a class\<close>
  | Star cls       \<comment> \<open>\<open>c*\<close>, greedy\<close>
  | Seq rx rx      \<comment> \<open>concatenation\<close>
  | Alt rx rx      \<comment> \<open>\<open>a|b\<close>, the left branch first\<close>
  | Opt rx         \<comment> \<open>\<open>a?\<close>, greedy\<close>
  | Look rx        \<comment> \<open>\<open>(?=a)\<close>\<close>
  | Bnd            \<comment> \<open>\<open>\b\<close>\<close>

definition Plus :: "cls \<Rightarrow> rx" where
  \<comment> \<open>\<open>c+\<close>\<close>
  "Plus c = Seq (Cls c) (Star c)"

fun in_item :: "item \<Rightarrow> char \<Rightarrow> bool" where
  "in_item (Ch a) c = (c = a)"
| "in_item (Rg lo hi) c = (ord lo \<le> ord c \<and> ord c \<le> ord hi)"
| "in_item Esc_s c = is_space c"
| "in_item Esc_d c = is_digit c"

fun in_items :: "item list \<Rightarrow> char \<Rightarrow> bool" where
  "in_items [] c = False"
| "in_items (x # xs) c = (in_item x c \<or> in_items xs c)"

fun in_cls :: "cls \<Rightarrow> char \<Rightarrow> bool" where
  "in_cls (In xs) c = in_items xs c"
| "in_cls (NotIn xs) c = (\<not> in_items xs c)"

fun starts :: "string \<Rightarrow> string \<Rightarrow> nat \<Rightarrow> bool" where
  \<comment> \<open>the literal is in the text at position \<open>i\<close>\<close>
  "starts [] t i = True"
| "starts (c # cs) t i = (i < length t \<and> t ! i = c \<and> starts cs t (Suc i))"

definition boundary :: "string \<Rightarrow> nat \<Rightarrow> bool" where
  \<comment> \<open>\<open>\b\<close> at position \<open>i\<close>: exactly one of the characters before and after \<open>i\<close> is a
      word character; the ends of the text count as non-word.\<close>
  "boundary t i = ((0 < i \<and> i \<le> length t \<and> is_word (t ! (i - 1))) \<noteq> (i < length t \<and> is_word (t ! i)))"

function run :: "cls \<Rightarrow> string \<Rightarrow> nat \<Rightarrow> nat list" where
  \<comment> \<open>the ends that a greedy \<open>c*\<close> started at \<open>i\<close> offers, longest first\<close>
  "run c t i = (if i < length t \<and> in_cls c (t ! i) then run c t (Suc i) @ [i] else [i])"
  by pat_completeness auto
termination
  by (relation "measure (\<lambda>(c, t, i). length t - i)") auto

declare run.simps [simp del]

fun ms :: "rx \<Rightarrow> string \<Rightarrow> nat \<Rightarrow> nat list" where
  \<comment> \<open>The end positions of the matches of a pattern anchored at \<open>i\<close>, in the order in which
      the backtracking matcher of \<open>re\<close> tries them.\<close>
  "ms (Lit s) t i = (if starts s t i then [i + length s] else [])"
| "ms (Cls c) t i = (if i < length t \<and> in_cls c (t ! i) then [Suc i] else [])"
| "ms (Star c) t i = run c t i"
| "ms (Seq a b) t i = concat (map (ms b t) (ms a t i))"
| "ms (Alt a b) t i = ms a t i @ ms b t i"
| "ms (Opt a) t i = ms a t i @ [i]"
| "ms (Look a) t i = (if ms a t i = [] then [] else [i])"
| "ms Bnd t i = (if boundary t i then [i] else [])"

definition rexmatch :: "rx \<Rightarrow> string \<Rightarrow> nat \<Rightarrow> nat option" where
  \<comment> \<open>\<open>pattern.match(text, pos)\<close>: the end of the first match, if there is one\<close>
  "rexmatch r t i = (case ms r t i of [] \<Rightarrow> None | e # _ \<Rightarrow> Some e)"

fun words :: "string list \<Rightarrow> rx" where
  \<comment> \<open>\<open>words(ws)\<close>: a pattern that matches any one of the given words. No word of the
      lexer's word sets is a prefix of another one of the same set, so the order of the
      alternatives does not matter.\<close>
  "words [] = Cls (In [])"
| "words (w # ws) = Alt (Lit w) (words ws)"

section \<open>The lexer: token types, states and rule tables\<close>

datatype tok =
    Whitespace | Comment_Single | Comment_Multiline
  | Keyword_Declaration | Keyword_Type | Keyword_Reserved
  | Name_Builtin | Name_Builtin_Quantum | Name_Constant | Name_Constant_Quantum
  | Operator_Word | Operator | Punctuation | Name_Decorator
  | Number_Quantum | Number_Float | Number_Integer | String
  | Name_Variable_Quantum | Name_Class | Name | Name_Attribute
  | Error

datatype lstate = Root | Comment | Trait_list | Modifier

datatype transition =
    Enter lstate   \<comment> \<open>a state name as third component\<close>
  | Push           \<comment> \<open>\<open>#push\<close>\<close>
  | Pop            \<comment> \<open>\<open>#pop\<close>\<close>

type_synonym rule = "rx \<times> tok \<times> transition option"

definition keywords_decl :: "string list" where
  "keywords_decl = [''const'', ''fn'', ''main'', ''meta-fn'', ''metafn'', ''modifier'',
     ''metamod'', ''type'', ''use'']"

definition keywords_type :: "string list" where
  "keywords_type = [''bdn_t'', ''fn_t'', ''ir_t'', ''opbdn_t'', ''opn_t'', ''optn_t'']"

definition builtin_types_classical :: "string list" where
  "builtin_types_classical = [''bool'', ''f32'', ''f64'', ''float'', ''hashmap'', ''i32'',
     ''i64'', ''imag'', ''int'', ''sample_t'', ''str'', ''u32'', ''u64'']"

definition builtin_types_quantum :: "string list" where
  "builtin_types_quantum = [''@bell_t'', ''@bool'', ''@false'', ''@int'', ''@true'', ''@u2'',
     ''@u3'', ''@u4'']"

definition bool_literals :: "string list" where
  "bool_literals = [''false'', ''true'']"

definition quantum_bool_literals :: "string list" where
  "quantum_bool_literals = [''@false'', ''@true'']"

definition keywords_reserved :: "string list" where
  "keywords_reserved = [''self'']"

definition ident_tail :: cls where
  \<comment> \<open>\<open>[a-zA-Z0-9\-_]\<close>\<close>
  "ident_tail = In [Rg CHR ''a'' CHR ''z'', Rg CHR ''A'' CHR ''Z'', Rg CHR ''0'' CHR ''9'',
     Ch CHR ''-'', Ch CHR ''_'']"

definition integer_rx :: rx where
  \<comment> \<open>\<open>-?(?:[1-9]\d*|0)\b\<close>\<close>
  "integer_rx = Seq (Opt (Lit ''-''))
     (Seq (Alt (Seq (Cls (In [Rg CHR ''1'' CHR ''9''])) (Star (In [Esc_d]))) (Lit ''0'')) Bnd)"

definition root_rules :: "rule list" where
  "root_rules = [
     (Plus (In [Ch CHR '' '', Ch TAB, Ch CR, Ch LF, Ch CHR '','', Ch CHR '';'']), Whitespace, None),
     (Seq (Lit ''//'') (Seq (Star (NotIn [Ch LF])) (Lit [LF])), Comment_Single, None),
     (Lit ''/*'', Comment_Multiline, Some (Enter Comment)),
     (Seq (words keywords_decl) Bnd, Keyword_Declaration, None),
     (Seq (words keywords_type) Bnd, Keyword_Type, None),
     (Seq (words keywords_reserved) Bnd, Keyword_Reserved, None),
     (Seq (words builtin_types_classical) Bnd, Name_Builtin, None),
     (Seq (words builtin_types_quantum) Bnd, Name_Builtin_Quantum, None),
     (Seq Bnd (Seq (words bool_literals) Bnd), Name_Constant, None),
     (Seq Bnd (Seq (words quantum_bool_literals) Bnd), Name_Constant_Quantum, None),
     (Lit ''::'', Operator_Word, None),
     (Seq (Lit ''*'') (Look (Cls (In [Esc_s]))), Operator_Word, None),
     (Lit ''&'', Operator_Word, None),
     (Seq (Lit ''...'')
        (Look (Alt (Cls (In [Esc_s])) (Alt (Lit '')'') (Alt (Lit '']'') (Lit ''}''))))),
      Operator, None),
     (Seq (Lit ''..'')
        (Look (Alt (Cls (In [Esc_s])) (Alt (Lit '')'') (Alt (Lit '']'') (Alt (Lit ''}'')
           (Cls (In [Rg CHR ''a'' CHR ''z'', Rg CHR ''A'' CHR ''Z'', Rg CHR ''0'' CHR ''9'']))))))),
      Operator, None),
     (Lit '':'', Operator, None),
     (Lit ''='', Operator, None),
     (Lit ''.'', Operator, None),
     (Cls (In [Ch CHR ''('', Ch CHR '')'', Ch CHR ''{'', Ch CHR ''}'', Ch CHR ''['', Ch CHR '']'']),
      Punctuation, None),
     (Lit ''#['', Punctuation, Some (Enter Trait_list)),
     (Seq (Lit ''#'') (Seq (Opt (Lit ''@''))
        (Seq (Cls (In [Rg CHR ''A'' CHR ''Z''])) (Star ident_tail))), Name_Decorator, None),
     (Lit ''<'', Punctuation, Some (Enter Modifier)),
     (Seq (Lit ''@'') integer_rx, Number_Quantum, None),
     (Seq (Opt (Lit ''-'')) (Seq (Plus (In [Esc_d])) (Seq (Lit ''.'') (Plus (In [Esc_d])))),
      Number_Float, None),
     (integer_rx, Number_Integer, None),
     (Seq (Lit [DQUOTE]) (Seq (Star (NotIn [Ch DQUOTE])) (Lit [DQUOTE])), String, None),
     (Seq (Lit ''@'') (Seq (Cls (In [Rg CHR ''a'' CHR ''z'', Rg CHR ''A'' CHR ''Z'']))
        (Star ident_tail)), Name_Variable_Quantum, None),
     (Seq (Cls (In [Rg CHR ''A'' CHR ''Z''])) (Star ident_tail), Name_Class, None),
     (Seq (Cls (In [Rg CHR ''a'' CHR ''z''])) (Star ident_tail), Name, None)]"

definition comment_rules :: "rule list" where
  "comment_rules = [
     (Cls (NotIn [Ch CHR ''*'', Ch CHR ''/'']), Comment_Multiline, None),
     (Lit ''/*'', Comment_Multiline, Some Push),
     (Lit ''*/'', Comment_Multiline, Some Pop),
     (Cls (In [Ch CHR ''*'', Ch CHR ''/'']), Comment_Multiline, None)]"

definition trait_list_rules :: "rule list" where
  "trait_list_rules = [
     (Plus (In [Esc_s]), Whitespace, None),
     (Seq (Opt (Lit ''@'')) (Seq (Cls (In [Rg CHR ''A'' CHR ''Z''])) (Star ident_tail)),
      Name_Decorator, None),
     (Lit '']'', Punctuation, Some Pop)]"

definition modifier_rules :: "rule list" where
  "modifier_rules = [
     (Plus (In [Esc_s]), Whitespace, None),
     (Lit ''&'', Operator_Word, None),
     (Lit ''*'', Operator_Word, None),
     (Lit ''...'', Operator, None),
     (Lit '':'', Operator, None),
     (Lit ''='', Operator, None),
     (Seq (Opt (Lit ''@'')) (Seq (Cls (In [Rg CHR ''a'' CHR ''z'', Rg CHR ''A'' CHR ''Z'']))
        (Star ident_tail)), Name_Attribute, None),
     (integer_rx, Number_Integer, None),
     (Lit ''>'', Punctuation, Some Pop)]"

fun tokens :: "lstate \<Rightarrow> rule list" where
  "tokens Root = root_rules"
| "tokens Comment = comment_rules"
| "tokens Trait_list = trait_list_rules"
| "tokens Modifier = modifier_rules"

section \<open>The scanner\<close>

text \<open>
  The lexer class holds the rule tables only. The loop that runs them is inherited from
  the base class of the highlighting library, which is not part of the repository; it is
  modelled here from the specification's data model (section 3) and stepping loop
  (section 4.1).
\<close>

record token =
  \<comment> \<open>Modelled from the spec: the Token record of section 3 (produced by the inherited
      loop, which is not in the repository).\<close>
  kind :: tok
  lexeme :: string
  start_offset :: nat
  end_offset :: nat

record scanner =
  \<comment> \<open>Modelled from the spec: the ScannerState record of section 3 (the state of the
      inherited loop, which is not in the repository).\<close>
  cursor :: nat
  state_stack :: "lstate list"

fun first_match :: "rule list \<Rightarrow> string \<Rightarrow> nat \<Rightarrow> (nat \<times> tok \<times> transition option) option" where
  \<comment> \<open>Modelled from the spec: step 1b of the stepping loop, which the lexer class inherits
      from the base class of the highlighting library and which is not in the repository.
      The rules are tried in declared order, anchored at the cursor; the first that
      matches wins.\<close>
  "first_match [] t i = None"
| "first_match ((r, k, a) # rs) t i =
     (case rexmatch r t i of Some e \<Rightarrow> Some (e, k, a) | None \<Rightarrow> first_match rs t i)"

fun apply_action :: "transition option \<Rightarrow> lstate list \<Rightarrow> lstate list" where
  \<comment> \<open>Modelled from the spec: the actions of step 1c (the inherited loop is not in the
      repository). The top of the stack is the last element. \<open>#push\<close> pushes the current
      state again; a pop leaves the lone bottom state in place.\<close>
  "apply_action None st = st"
| "apply_action (Some (Enter s)) st = st @ [s]"
| "apply_action (Some Push) st = st @ [last st]"
| "apply_action (Some Pop) st = (if length st \<le> 1 then st else butlast st)"

definition slice :: "string \<Rightarrow> nat \<Rightarrow> nat \<Rightarrow> string" where
  \<comment> \<open>\<open>text[i:j]\<close>\<close>
  "slice t i j = take (j - i) (drop i t)"

definition step :: "string \<Rightarrow> scanner \<Rightarrow> token list \<times> scanner" where
  \<comment> \<open>Modelled from the spec: steps 1a to 1d of the stepping loop (the inherited loop is
      not in the repository): one turn of the loop at a cursor inside the input.\<close>
  "step input s =
     (case first_match (tokens (last (state_stack s))) input (cursor s) of
        Some (e, k, a) \<Rightarrow>
          (let m = slice input (cursor s) e in
           ([\<lparr>kind = k, lexeme = m, start_offset = cursor s, end_offset = cursor s + length m\<rparr>],
            \<lparr>cursor = cursor s + length m, state_stack = apply_action a (state_stack s)\<rparr>))
      | None \<Rightarrow>
          ([\<lparr>kind = Error, lexeme = [input ! cursor s], start_offset = cursor s,
             end_offset = cursor s + 1\<rparr>],
           s\<lparr>cursor := cursor s + 1\<rparr>))"

partial_function (option) scan :: "string \<Rightarrow> scanner \<Rightarrow> token list option" where
  \<comment> \<open>Modelled from the spec: the stepping loop, steps 1 and 2 (the inherited loop is not
      in the repository). \<open>None\<close> stands for a loop that never ends.\<close>
  "scan input s =
     (if cursor s < length input
      then (let r = step input s in
            do { rest \<leftarrow> scan input (snd r); Some (fst r @ rest) })
      else Some [])"

definition tokenize :: "string \<Rightarrow> token list option" where
  \<comment> \<open>Modelled from the spec: the operation \<open>tokenize\<close> of section 4.1, the inherited loop
      (not in the repository) started at offset 0 with the stack \<open>[Root]\<close>.\<close>
  "tokenize input = scan input \<lparr>cursor = 0, state_stack = [Root]\<rparr>"


section \<open>Notions used in the statements\<close>

fun nonnull :: "rx \<Rightarrow> bool" where
  "nonnull (Lit s) = (s \<noteq> [])"
| "nonnull (Cls c) = True"
| "nonnull (Star c) = False"
| "nonnull (Seq a b) = (nonnull a \<or> nonnull b)"
| "nonnull (Alt a b) = (nonnull a \<and> nonnull b)"
| "nonnull (Opt a) = False"
| "nonnull (Look a) = False"
| "nonnull Bnd = False"

fun contiguous :: "nat \<Rightarrow> token list \<Rightarrow> nat \<Rightarrow> bool" where
  "contiguous p [] e = (p = e)"
| "contiguous p (x # xs) e =
     (start_offset x = p \<and> end_offset x = p + length (lexeme x) \<and> contiguous (end_offset x) xs e)"

inductive reachable :: "string \<Rightarrow> scanner \<Rightarrow> bool" for input :: string where
  start: "reachable input \<lparr>cursor = 0, state_stack = [Root]\<rparr>"
| turn: "reachable input s \<Longrightarrow> cursor s < length input \<Longrightarrow> reachable input (snd (step input s))"

declare scan.simps [code]

section \<open>The matcher stays inside the text and moves forward\<close>

lemma run_bounds: "i \<le> length t \<Longrightarrow> e \<in> set (run c t i) \<Longrightarrow> i \<le> e \<and> e \<le> length t"
proof (induction c t i rule: run.induct)
  case (1 c t i)
  show ?case
  proof (cases "i < length t \<and> in_cls c (t ! i)")
    case True
    with "1.prems" have "e \<in> set (run c t (Suc i)) \<or> e = i"
      by (subst (asm) run.simps) auto
    then show ?thesis
    proof
      assume "e \<in> set (run c t (Suc i))"
      with "1.IH" True have "Suc i \<le> e \<and> e \<le> length t" by simp
      then show ?thesis by simp
    next
      assume "e = i"
      with "1.prems" show ?thesis by simp
    qed
  next
    case False
    with "1.prems" have "e = i" by (subst (asm) run.simps) auto
    with "1.prems" show ?thesis by simp
  qed
qed

lemma starts_length: "starts s t i \<Longrightarrow> i + length s \<le> length t \<or> s = []"
proof (induction s arbitrary: i)
  case Nil
  then show ?case by simp
next
  case (Cons c cs)
  then have "i < length t" and "starts cs t (Suc i)" by simp_all
  with Cons.IH [of "Suc i"] show ?case by auto
qed

lemma starts_bound: "i \<le> length t \<Longrightarrow> starts s t i \<Longrightarrow> i + length s \<le> length t"
  using starts_length [of s t i] by auto

lemma ms_bounds: "i \<le> length t \<Longrightarrow> e \<in> set (ms r t i) \<Longrightarrow> i \<le> e \<and> e \<le> length t"
proof (induction r arbitrary: i e)
  case (Lit s)
  then have "starts s t i" and "e = i + length s" by (simp_all split: if_splits)
  with starts_bound [of i t s] Lit.prems(1) show ?case by simp
next
  case (Cls c)
  then show ?case by (simp split: if_splits)
next
  case (Star c)
  then show ?case using run_bounds [of i t e c] by simp
next
  case (Seq a b)
  from Seq.prems obtain j where j: "j \<in> set (ms a t i)" and e: "e \<in> set (ms b t j)" by auto
  from Seq.IH(1) [OF Seq.prems(1) j] have ij: "i \<le> j \<and> j \<le> length t" .
  then have "j \<le> length t" by simp
  from Seq.IH(2) [OF this e] ij show ?case by simp
next
  case (Alt a b)
  from Alt.prems(2) have "e \<in> set (ms a t i) \<or> e \<in> set (ms b t i)" by simp
  then show ?case using Alt.IH(1) [OF Alt.prems(1)] Alt.IH(2) [OF Alt.prems(1)] by blast
next
  case (Opt a)
  from Opt.prems(2) have "e \<in> set (ms a t i) \<or> e = i" by auto
  then show ?case using Opt.IH [OF Opt.prems(1)] Opt.prems(1) by blast
next
  case (Look a)
  from Look.prems show ?case by (simp split: if_splits)
next
  case Bnd
  then show ?case by (simp split: if_splits)
qed

lemma ms_nonnull: "nonnull r \<Longrightarrow> i \<le> length t \<Longrightarrow> e \<in> set (ms r t i) \<Longrightarrow> i < e"
proof (induction r arbitrary: i e)
  case (Lit s)
  then show ?case by (simp split: if_splits)
next
  case (Cls c)
  then show ?case by (simp split: if_splits)
next
  case (Seq a b)
  from Seq.prems obtain j where j: "j \<in> set (ms a t i)" and e: "e \<in> set (ms b t j)" by auto
  from ms_bounds [OF Seq.prems(2) j] have ij: "i \<le> j \<and> j \<le> length t" .
  then have jl: "j \<le> length t" by simp
  from ms_bounds [OF jl e] have je: "j \<le> e" by simp
  from Seq.prems(1) have "nonnull a \<or> nonnull b" by simp
  then show ?case
  proof
    assume "nonnull a"
    from Seq.IH(1) [OF this Seq.prems(2) j] je show ?thesis by simp
  next
    assume "nonnull b"
    from Seq.IH(2) [OF this jl e] ij show ?thesis by simp
  qed
next
  case (Alt a b)
  from Alt.prems(3) have "e \<in> set (ms a t i) \<or> e \<in> set (ms b t i)" by simp
  moreover from Alt.prems(1) have "nonnull a" and "nonnull b" by simp_all
  ultimately show ?case using Alt.IH(1) [OF _ Alt.prems(2)] Alt.IH(2) [OF _ Alt.prems(2)] by blast
qed simp_all

lemma first_match_Some:
  "first_match rs t i = Some (e, k, a) \<Longrightarrow> \<exists>r. (r, k, a) \<in> set rs \<and> e \<in> set (ms r t i)"
proof (induction rs)
  case Nil
  then show ?case by simp
next
  case (Cons x rs)
  obtain r' k' a' where x: "x = (r', k', a')" by (cases x)
  show ?case
  proof (cases "ms r' t i")
    case Nil
    with Cons.prems x have "first_match rs t i = Some (e, k, a)" by (simp add: rexmatch_def)
    from Cons.IH [OF this] show ?thesis by auto
  next
    case (Cons e' es)
    with Cons.prems x have "e' = e \<and> k' = k \<and> a' = a" by (simp add: rexmatch_def)
    with Cons x show ?thesis by auto
  qed
qed

lemma rules_nonnull: "(r, k, a) \<in> set (tokens st) \<Longrightarrow> nonnull r"
  by (cases st)
     (auto simp: root_rules_def comment_rules_def trait_list_rules_def modifier_rules_def
        Plus_def integer_rx_def keywords_decl_def keywords_type_def keywords_reserved_def
        builtin_types_classical_def builtin_types_quantum_def bool_literals_def
        quantum_bool_literals_def)


lemma first_match_advances:
  assumes "first_match (tokens st) t i = Some (e, k, a)" and "i \<le> length t"
  shows "i < e \<and> e \<le> length t"
proof -
  from first_match_Some [OF assms(1)] obtain r
    where r: "(r, k, a) \<in> set (tokens st)" and e: "e \<in> set (ms r t i)" by blast
  from rules_nonnull [OF r] have "nonnull r" .
  from ms_nonnull [OF this assms(2) e] ms_bounds [OF assms(2) e] show ?thesis by simp
qed

lemma length_slice: "i \<le> e \<Longrightarrow> e \<le> length t \<Longrightarrow> length (slice t i e) = e - i"
  by (simp add: slice_def)

lemma slice_drop: "i \<le> e \<Longrightarrow> e \<le> length t \<Longrightarrow> slice t i e @ drop e t = drop i t"
proof -
  assume a: "i \<le> e" "e \<le> length t"
  have "drop e t = drop (e - i) (drop i t)" using a by simp
  then show ?thesis unfolding slice_def by (metis append_take_drop_id)
qed

lemma slice_one: "i < length t \<Longrightarrow> [t ! i] @ drop (Suc i) t = drop i t"
  by (simp add: Cons_nth_drop_Suc)

text \<open>What one turn of the loop does, in both of its branches.\<close>

lemma step_match:
  assumes "first_match (tokens (last (state_stack s))) input (cursor s) = Some (e, k, a)"
    and "cursor s \<le> length input"
  shows "step input s =
     ([\<lparr>kind = k, lexeme = slice input (cursor s) e, start_offset = cursor s, end_offset = e\<rparr>],
      \<lparr>cursor = e, state_stack = apply_action a (state_stack s)\<rparr>)"
proof -
  from first_match_advances [OF assms] have b: "cursor s < e \<and> e \<le> length input" .
  then have "cursor s + length (slice input (cursor s) e) = e"
    by (simp add: length_slice)
  with assms(1) show ?thesis by (simp add: step_def Let_def)
qed

lemma step_fallback:
  assumes "first_match (tokens (last (state_stack s))) input (cursor s) = None"
  shows "step input s =
     ([\<lparr>kind = Error, lexeme = [input ! cursor s], start_offset = cursor s,
        end_offset = cursor s + 1\<rparr>],
      s\<lparr>cursor := cursor s + 1\<rparr>)"
  using assms by (simp add: step_def)

lemma step_shape:
  assumes "cursor s < length input"
  shows "\<exists>k e st. cursor s < e \<and> e \<le> length input \<and>
     step input s = ([\<lparr>kind = k, lexeme = slice input (cursor s) e, start_offset = cursor s,
        end_offset = e\<rparr>], \<lparr>cursor = e, state_stack = st\<rparr>)"
proof (cases "first_match (tokens (last (state_stack s))) input (cursor s)")
  case None
  have "slice input (cursor s) (Suc (cursor s)) = [input ! cursor s]"
    using assms by (simp add: slice_def take_Suc_conv_app_nth hd_drop_conv_nth take_Suc)
  with step_fallback [OF None] assms show ?thesis
    by (intro exI [of _ Error] exI [of _ "Suc (cursor s)"] exI [of _ "state_stack s"]) simp
next
  case (Some x)
  obtain e k a where x: "x = (e, k, a)" by (cases x)
  from assms have le: "cursor s \<le> length input" by simp
  from Some x first_match_advances [of "last (state_stack s)" input "cursor s" e k a] le
  have "cursor s < e \<and> e \<le> length input" by simp
  with step_match [OF Some [unfolded x] le] show ?thesis by blast
qed

lemma scan_total_aux:
  "length input - cursor s = n \<Longrightarrow> cursor s \<le> length input \<Longrightarrow>
     \<exists>ts. scan input s = Some ts \<and> concat (map lexeme ts) = drop (cursor s) input
       \<and> contiguous (cursor s) ts (length input)"
proof (induction n arbitrary: s rule: less_induct)
  case (less n)
  show ?case
  proof (cases "cursor s < length input")
    case False
    with less.prems have "cursor s = length input" by simp
    then show ?thesis by (subst scan.simps) simp
  next
    case True
    from step_shape [OF True] obtain k e st where e: "cursor s < e" "e \<le> length input"
      and st: "step input s = ([\<lparr>kind = k, lexeme = slice input (cursor s) e,
        start_offset = cursor s, end_offset = e\<rparr>], \<lparr>cursor = e, state_stack = st\<rparr>)"
      by blast
    let ?s' = "\<lparr>cursor = e, state_stack = st\<rparr>"
    have "length input - cursor ?s' < n" using e less.prems True by simp
    from less.IH [OF this refl] e obtain ts where ts: "scan input ?s' = Some ts"
      "concat (map lexeme ts) = drop e input" "contiguous e ts (length input)" by auto
    have "scan input s = Some (\<lparr>kind = k, lexeme = slice input (cursor s) e,
        start_offset = cursor s, end_offset = e\<rparr> # ts)"
      by (subst scan.simps) (simp add: True st ts(1) Let_def)
    moreover have "slice input (cursor s) e @ drop e input = drop (cursor s) input"
      using e by (intro slice_drop) simp_all
    moreover have "length (slice input (cursor s) e) = e - cursor s"
      using e by (intro length_slice) simp_all
    ultimately show ?thesis using ts e by simp
  qed
qed

lemma scan_from_start:
  "\<exists>ts. tokenize input = Some ts \<and> concat (map lexeme ts) = input \<and> contiguous 0 ts (length input)"
  using scan_total_aux [of input "\<lparr>cursor = 0, state_stack = [Root]\<rparr>" "length input"]
  by (simp add: tokenize_def)

section \<open>Coverage and termination\<close>

text \<open>
  C1 (round trip, total coverage): for every input, the lexemes of the tokens that
  \<open>tokenize\<close> returns, concatenated in emission order, are the input itself; the tokens
  are contiguous and do not overlap: the first starts at offset 0, each one is as long
  as its lexeme and starts where the one before it ends, and the last ends at the length
  of the input.
\<close>

theorem tokenize_round_trip:
  "\<exists>ts. tokenize input = Some ts \<and> concat (map lexeme ts) = input
     \<and> contiguous 0 ts (length input)"
  by (rule scan_from_start)

lemma step_moves: "cursor s < length input \<Longrightarrow> cursor s < cursor (snd (step input s))"
  using step_shape [of s input] by auto

lemma rule_match_nonempty:
  "(r, k, a) \<in> set (tokens st) \<Longrightarrow> i \<le> length t \<Longrightarrow> e \<in> set (ms r t i) \<Longrightarrow> i < e"
  using rules_nonnull ms_nonnull by blast

text \<open>
  C8 (termination): \<open>tokenize\<close> returns for every input, because every turn of the loop,
  by a rule or by the fallback, moves the cursor forward by at least one character and
  never past the end; every pattern of every state matches non-empty text only.
\<close>

theorem tokenize_terminates:
  "(\<exists>ts. tokenize input = Some ts)
   \<and> (\<forall>s. cursor s < length input \<longrightarrow>
         cursor s < cursor (snd (step input s)) \<and> cursor (snd (step input s)) \<le> length input)
   \<and> (\<forall>st r k a i e. (r, k, a) \<in> set (tokens st) \<and> i \<le> length input \<and> e \<in> set (ms r input i)
         \<longrightarrow> i < e)"
proof (intro conjI allI impI)
  show "\<exists>ts. tokenize input = Some ts" using scan_from_start [of input] by blast
next
  fix s :: scanner assume "cursor s < length input"
  then show "cursor s < cursor (snd (step input s))" by (rule step_moves)
next
  fix s :: scanner assume "cursor s < length input"
  from step_shape [OF this] show "cursor (snd (step input s)) \<le> length input" by auto
next
  fix st r k a i e
  assume "(r, k, a) \<in> set (tokens st) \<and> i \<le> length input \<and> e \<in> set (ms r input i)"
  then show "i < e" using rule_match_nonempty by blast
qed

theorem tokenize_terminates_witness:
  "(\<exists>ts. tokenize ''fn x'' = Some ts)
   \<and> cursor \<lparr>cursor = 0, state_stack = [Root]\<rparr> < length ''fn x''
   \<and> cursor (snd (step ''fn x'' \<lparr>cursor = 0, state_stack = [Root]\<rparr>)) \<in> {1..4}
   \<and> (Lit ''::'', Operator_Word, None) \<in> set (tokens Root) \<and> (1::nat) \<le> length ''a::b''
   \<and> 3 \<in> set (ms (Lit ''::'') ''a::b'' 1) \<and> (1::nat) < 3"
proof -
  let ?s = "\<lparr>cursor = 0, state_stack = [Root]\<rparr>"
  have c: "cursor ?s < length ''fn x''" by simp
  from tokenize_terminates [of "''fn x''"] c
  have "(\<exists>ts. tokenize ''fn x'' = Some ts)
     \<and> cursor ?s < cursor (snd (step ''fn x'' ?s)) \<and> cursor (snd (step ''fn x'' ?s)) \<le> length ''fn x''"
    by blast
  moreover have m: "(Lit ''::'', Operator_Word, None) \<in> set (tokens Root) \<and> (1::nat) \<le> length ''a::b''
     \<and> 3 \<in> set (ms (Lit ''::'') ''a::b'' 1)"
    by (simp add: root_rules_def)
  moreover from tokenize_terminates [of "''a::b''"] m have "(1::nat) < 3" by blast
  ultimately show ?thesis using c by simp
qed

section \<open>The fallback\<close>

text \<open>
  The inherited loop treats a line feed that no rule matches as whitespace and goes back
  to the root state. Each state of this lexer has a rule that matches a line feed, so
  that case does not arise, and a character that no rule matches is never a line feed.
\<close>

lemma run_nonempty: "run c t i \<noteq> []"
  by (subst run.simps) simp

lemma newline_matched:
  assumes "i < length t" and "t ! i = LF"
  shows "first_match (tokens st) t i \<noteq> None"
proof (cases st)
  case Root
  with assms show ?thesis
    by (simp add: root_rules_def rexmatch_def Plus_def run_nonempty split: list.splits)
next
  case Comment
  with assms show ?thesis by (simp add: comment_rules_def rexmatch_def)
next
  case Trait_list
  with assms show ?thesis
    by (simp add: trait_list_rules_def rexmatch_def Plus_def run_nonempty is_space_def ord_def
        split: list.splits)
next
  case Modifier
  with assms show ?thesis
    by (simp add: modifier_rules_def rexmatch_def Plus_def run_nonempty is_space_def ord_def
        split: list.splits)
qed

lemma scan_total: "cursor s \<le> length input \<Longrightarrow> \<exists>ts. scan input s = Some ts"
  using scan_total_aux [of input s "length input - cursor s"] by blast

lemma scan_after_fallback:
  assumes c: "cursor s < length input"
    and n: "first_match (tokens (last (state_stack s))) input (cursor s) = None"
  shows "\<exists>rest. scan input (s\<lparr>cursor := cursor s + 1\<rparr>) = Some rest
     \<and> scan input s = Some (\<lparr>kind = Error, lexeme = [input ! cursor s],
          start_offset = cursor s, end_offset = cursor s + 1\<rparr> # rest)"
proof -
  from c have "cursor (s\<lparr>cursor := cursor s + 1\<rparr>) \<le> length input" by simp
  from scan_total [OF this] obtain rest
    where rest: "scan input (s\<lparr>cursor := cursor s + 1\<rparr>) = Some rest" by blast
  from rest have rest': "scan input (s\<lparr>cursor := Suc (cursor s)\<rparr>) = Some rest" by simp
  have "scan input s = Some (\<lparr>kind = Error, lexeme = [input ! cursor s],
          start_offset = cursor s, end_offset = cursor s + 1\<rparr> # rest)"
    by (subst scan.simps) (simp add: c step_fallback [OF n] rest')
  with rest show ?thesis by blast
qed

text \<open>
  C4 (totality and fallback): \<open>tokenize\<close> returns for every input. Whenever no rule of the
  current state matches at the cursor, the turn emits exactly one token of type \<open>Error\<close>
  holding the character at the cursor, moves the cursor by one and leaves the stack as it
  is, and scanning goes on from there. The input \<open>$\<close> gives one \<open>Error\<close> token of length 1.
\<close>

theorem tokenize_total_fallback:
  "(\<exists>ts. tokenize input = Some ts)
   \<and> (\<forall>s. cursor s < length input
          \<and> first_match (tokens (last (state_stack s))) input (cursor s) = None \<longrightarrow>
        step input s = ([\<lparr>kind = Error, lexeme = [input ! cursor s], start_offset = cursor s,
           end_offset = cursor s + 1\<rparr>], s\<lparr>cursor := cursor s + 1\<rparr>)
        \<and> (\<exists>rest. scan input (s\<lparr>cursor := cursor s + 1\<rparr>) = Some rest
             \<and> scan input s = Some (\<lparr>kind = Error, lexeme = [input ! cursor s],
                  start_offset = cursor s, end_offset = cursor s + 1\<rparr> # rest)))
   \<and> tokenize ''$'' = Some [\<lparr>kind = Error, lexeme = ''$'', start_offset = 0, end_offset = 1\<rparr>]"
proof (intro conjI allI impI)
  show "\<exists>ts. tokenize input = Some ts" using scan_from_start [of input] by blast
next
  fix s :: scanner
  assume "cursor s < length input
     \<and> first_match (tokens (last (state_stack s))) input (cursor s) = None"
  then show "step input s = ([\<lparr>kind = Error, lexeme = [input ! cursor s],
      start_offset = cursor s, end_offset = cursor s + 1\<rparr>], s\<lparr>cursor := cursor s + 1\<rparr>)"
    using step_fallback by blast
next
  fix s :: scanner
  assume "cursor s < length input
     \<and> first_match (tokens (last (state_stack s))) input (cursor s) = None"
  then show "\<exists>rest. scan input (s\<lparr>cursor := cursor s + 1\<rparr>) = Some rest
     \<and> scan input s = Some (\<lparr>kind = Error, lexeme = [input ! cursor s],
          start_offset = cursor s, end_offset = cursor s + 1\<rparr> # rest)"
    using scan_after_fallback by blast
next
  show "tokenize ''$'' = Some [\<lparr>kind = Error, lexeme = ''$'', start_offset = 0, end_offset = 1\<rparr>]"
    by code_simp
qed

theorem tokenize_total_fallback_witness:
  "cursor \<lparr>cursor = 1, state_stack = [Root]\<rparr> < length ''a$b''
   \<and> first_match (tokens (last (state_stack \<lparr>cursor = 1, state_stack = [Root]\<rparr>))) ''a$b''
        (cursor \<lparr>cursor = 1, state_stack = [Root]\<rparr>) = None
   \<and> step ''a$b'' \<lparr>cursor = 1, state_stack = [Root]\<rparr> =
        ([\<lparr>kind = Error, lexeme = ''$'', start_offset = 1, end_offset = 2\<rparr>],
         \<lparr>cursor = 2, state_stack = [Root]\<rparr>)"
proof -
  let ?s = "\<lparr>cursor = 1, state_stack = [Root]\<rparr>"
  have h: "cursor ?s < length ''a$b''
     \<and> first_match (tokens (last (state_stack ?s))) ''a$b'' (cursor ?s) = None"
    by code_simp
  with tokenize_total_fallback [of "''a$b''"]
  have "step ''a$b'' ?s = ([\<lparr>kind = Error, lexeme = [''a$b'' ! cursor ?s],
      start_offset = cursor ?s, end_offset = cursor ?s + 1\<rparr>], ?s\<lparr>cursor := cursor ?s + 1\<rparr>)"
    by blast
  with h show ?thesis by simp
qed

section \<open>Concrete inputs\<close>

text \<open>
  C5 (numeric literals): \<open>0\<close> is one \<open>Number.Integer\<close> token, \<open>3.14\<close> one \<open>Number.Float\<close>
  token, \<open>@-5\<close> one \<open>Number.Quantum\<close> token. The integer pattern does not match \<open>00\<close> at
  offset 0; the input gives two tokens of one character each, the first from the
  fallback and the second from the integer rule.
\<close>

theorem numeric_literals:
  "tokenize ''0'' = Some [\<lparr>kind = Number_Integer, lexeme = ''0'', start_offset = 0, end_offset = 1\<rparr>]
   \<and> tokenize ''3.14'' =
       Some [\<lparr>kind = Number_Float, lexeme = ''3.14'', start_offset = 0, end_offset = 4\<rparr>]
   \<and> tokenize ''@-5'' =
       Some [\<lparr>kind = Number_Quantum, lexeme = ''@-5'', start_offset = 0, end_offset = 3\<rparr>]
   \<and> tokenize ''00'' =
       Some [\<lparr>kind = Error, lexeme = ''0'', start_offset = 0, end_offset = 1\<rparr>,
             \<lparr>kind = Number_Integer, lexeme = ''0'', start_offset = 1, end_offset = 2\<rparr>]
   \<and> rexmatch integer_rx ''00'' 0 = None"
  by code_simp

text \<open>
  C2 (quantum sigil): what the lexer returns for \<open>@true\<close>, \<open>true\<close>, \<open>@x\<close> and \<open>@int\<close>.
  The input \<open>true\<close> is one \<open>Name.Constant\<close> token, \<open>@x\<close> one \<open>Name.Variable.Quantum\<close> token
  and \<open>@int\<close> one \<open>Name.Builtin.Quantum\<close> token. The input \<open>@true\<close> comes out as
  \<open>Name.Builtin.Quantum\<close> too, the type of the quantum builtin types, and not as
  \<open>Name.Constant.Quantum\<close>, the type that the table gives to the quantum boolean literals.
\<close>

theorem quantum_sigil_tokens:
  "tokenize ''@true'' =
       Some [\<lparr>kind = Name_Builtin_Quantum, lexeme = ''@true'', start_offset = 0, end_offset = 5\<rparr>]
   \<and> tokenize ''true'' =
       Some [\<lparr>kind = Name_Constant, lexeme = ''true'', start_offset = 0, end_offset = 4\<rparr>]
   \<and> tokenize ''@x'' =
       Some [\<lparr>kind = Name_Variable_Quantum, lexeme = ''@x'', start_offset = 0, end_offset = 2\<rparr>]
   \<and> tokenize ''@int'' =
       Some [\<lparr>kind = Name_Builtin_Quantum, lexeme = ''@int'', start_offset = 0, end_offset = 4\<rparr>]"
  by code_simp

section \<open>The block-comment opener\<close>

lemma starts_slice: "starts w t i \<Longrightarrow> slice t i (i + length w) = w"
proof (induction w arbitrary: i)
  case Nil
  then show ?case by (simp add: slice_def)
next
  case (Cons c cs)
  then have i: "i < length t" and c: "t ! i = c" and r: "starts cs t (Suc i)" by simp_all
  from Cons.IH [OF r] have "take (length cs) (drop (Suc i) t) = cs" by (simp add: slice_def)
  moreover from i have "drop i t = t ! i # drop (Suc i) t" by (simp add: Cons_nth_drop_Suc)
  ultimately show ?case using c by (simp add: slice_def)
qed

lemma root_opener_match:
  assumes "starts ''/*'' t i"
  shows "first_match root_rules t i = Some (i + 2, Comment_Multiline, Some (Enter Comment))"
proof -
  from assms have "i < length t" and "t ! i = CHR ''/''" and "t ! Suc i = CHR ''*''"
    by simp_all
  then have "rexmatch (Plus (In [Ch CHR '' '', Ch TAB, Ch CR, Ch LF, Ch CHR '','', Ch CHR '';''])) t i = None"
    and "rexmatch (Seq (Lit ''//'') (Seq (Star (NotIn [Ch LF])) (Lit [LF]))) t i = None"
    by (simp_all add: rexmatch_def Plus_def)
  moreover from assms have "rexmatch (Lit ''/*'') t i = Some (i + 2)"
    by (simp add: rexmatch_def)
  ultimately show ?thesis by (simp add: root_rules_def)
qed

text \<open>
  C3, as stated, fails: on the input \<open>/*\<close> the turn of the root state that matches the
  opener emits a token for it.
\<close>

theorem block_comment_opener_counterexample:
  "fst (step ''/*'' \<lparr>cursor = 0, state_stack = [Root]\<rparr>) \<noteq> []
   \<and> step ''/*'' \<lparr>cursor = 0, state_stack = [Root]\<rparr> =
       ([\<lparr>kind = Comment_Multiline, lexeme = ''/*'', start_offset = 0, end_offset = 2\<rparr>],
        \<lparr>cursor = 2, state_stack = [Root, Comment]\<rparr>)"
  by code_simp

text \<open>
  C3, amended: when the scanner in the root state has the block-comment opener \<open>/*\<close> at
  the cursor, it emits one \<open>Comment.Multiline\<close> token holding the opener, pushes the
  block-comment state and moves the cursor past the opener.
\<close>

theorem block_comment_opener:
  assumes "last (state_stack s) = Root" and "starts ''/*'' input (cursor s)"
  shows "step input s =
     ([\<lparr>kind = Comment_Multiline, lexeme = ''/*'', start_offset = cursor s,
        end_offset = cursor s + 2\<rparr>],
      \<lparr>cursor = cursor s + 2, state_stack = state_stack s @ [Comment]\<rparr>)"
proof -
  from assms(2) have le: "cursor s \<le> length input" by simp
  from root_opener_match [OF assms(2)] assms(1)
  have "first_match (tokens (last (state_stack s))) input (cursor s)
      = Some (cursor s + 2, Comment_Multiline, Some (Enter Comment))" by simp
  from step_match [OF this le] starts_slice [OF assms(2)] show ?thesis by simp
qed

theorem block_comment_opener_witness:
  "last (state_stack \<lparr>cursor = 2, state_stack = [Root]\<rparr>) = Root
   \<and> starts ''/*'' ''a /* b'' (cursor \<lparr>cursor = 2, state_stack = [Root]\<rparr>)
   \<and> step ''a /* b'' \<lparr>cursor = 2, state_stack = [Root]\<rparr> =
       ([\<lparr>kind = Comment_Multiline, lexeme = ''/*'', start_offset = 2, end_offset = 4\<rparr>],
        \<lparr>cursor = 4, state_stack = [Root, Comment]\<rparr>)"
proof -
  let ?s = "\<lparr>cursor = 2, state_stack = [Root]\<rparr>"
  have a: "last (state_stack ?s) = Root" by simp
  have b: "starts ''/*'' ''a /* b'' (cursor ?s)" by simp
  from block_comment_opener [OF a b] a b show ?thesis by simp
qed

section \<open>The state stack\<close>

lemma apply_action_bottom:
  "st \<noteq> [] \<Longrightarrow> apply_action a st \<noteq> [] \<and> hd (apply_action a st) = hd st"
proof (cases a)
  case None
  then show "st \<noteq> [] \<Longrightarrow> ?thesis" by simp
next
  case (Some tr)
  assume ne: "st \<noteq> []"
  show ?thesis
  proof (cases tr)
    case (Enter x)
    with Some ne show ?thesis by simp
  next
    case Push
    with Some ne show ?thesis by simp
  next
    case Pop
    show ?thesis
    proof (cases "length st \<le> 1")
      case True
      with Some Pop ne show ?thesis by simp
    next
      case False
      then obtain x y ys where "st = x # y # ys"
        by (cases st; cases "tl st") auto
      with Some Pop show ?thesis by simp
    qed
  qed
qed

lemma rule_transitions:
  "(r, k, a) \<in> set (tokens st) \<Longrightarrow>
     a \<noteq> Some (Enter Root) \<and> (a = Some Push \<longrightarrow> st = Comment)"
  by (cases st)
     (auto simp: root_rules_def comment_rules_def trait_list_rules_def modifier_rules_def)

lemma step_transition:
  assumes "cursor s \<le> length input"
  shows "\<exists>a. state_stack (snd (step input s)) = apply_action a (state_stack s)
     \<and> a \<noteq> Some (Enter Root) \<and> (a = Some Push \<longrightarrow> last (state_stack s) = Comment)"
proof (cases "first_match (tokens (last (state_stack s))) input (cursor s)")
  case None
  from step_fallback [OF None]
  have "state_stack (snd (step input s)) = apply_action None (state_stack s)" by simp
  then show ?thesis by blast
next
  case (Some x)
  obtain e k a where x: "x = (e, k, a)" by (cases x)
  from first_match_Some [OF Some [unfolded x]] obtain r
    where "(r, k, a) \<in> set (tokens (last (state_stack s)))" by blast
  from rule_transitions [OF this]
  have "a \<noteq> Some (Enter Root) \<and> (a = Some Push \<longrightarrow> last (state_stack s) = Comment)" .
  moreover from step_match [OF Some [unfolded x] assms]
  have "state_stack (snd (step input s)) = apply_action a (state_stack s)" by simp
  ultimately show ?thesis by blast
qed

lemma apply_action_above:
  assumes "st \<noteq> []" and "Root \<notin> set (tl st)" and "a \<noteq> Some (Enter Root)"
    and "a = Some Push \<longrightarrow> last st = Comment"
  shows "Root \<notin> set (tl (apply_action a st))"
proof (cases a)
  case None
  with assms show ?thesis by simp
next
  case (Some tr)
  show ?thesis
  proof (cases tr)
    case (Enter x)
    with Some assms show ?thesis by simp
  next
    case Push
    with Some assms show ?thesis by simp
  next
    case Pop
    from assms(2) have "Root \<notin> set (tl (butlast st))"
      by (metis butlast_tl in_set_butlastD)
    with Some Pop assms show ?thesis by simp
  qed
qed

lemma reachable_bottom:
  "reachable input s \<Longrightarrow>
     state_stack s \<noteq> [] \<and> hd (state_stack s) = Root \<and> Root \<notin> set (tl (state_stack s))"
proof (induction rule: reachable.induct)
  case start
  show ?case by simp
next
  case (turn s)
  from turn.hyps(2) have "cursor s \<le> length input" by simp
  from step_transition [OF this] obtain a
    where a: "state_stack (snd (step input s)) = apply_action a (state_stack s)"
      "a \<noteq> Some (Enter Root)" "a = Some Push \<longrightarrow> last (state_stack s) = Comment" by blast
  from turn.IH have ne: "state_stack s \<noteq> []" and ab: "Root \<notin> set (tl (state_stack s))"
    by simp_all
  from apply_action_above [OF ne ab a(2) a(3)] apply_action_bottom [OF ne, of a] turn.IH a(1)
  show ?case by simp
qed

text \<open>
  C7 (state-stack invariant): at every point of the tokenization of any input the state
  stack is non-empty and has the root state at its bottom, and nowhere else; no action
  applied to such a stack empties it or removes the root state at the bottom, and a pop
  that meets the lone root state leaves the stack as it is.
\<close>

theorem stack_invariant:
  assumes "reachable input s"
  shows "state_stack s \<noteq> [] \<and> hd (state_stack s) = Root \<and> Root \<notin> set (tl (state_stack s))
     \<and> (\<forall>a. apply_action a (state_stack s) \<noteq> [] \<and> hd (apply_action a (state_stack s)) = Root)
     \<and> apply_action (Some Pop) [Root] = [Root]"
proof -
  from reachable_bottom [OF assms] have b: "state_stack s \<noteq> [] \<and> hd (state_stack s) = Root
     \<and> Root \<notin> set (tl (state_stack s))" .
  with apply_action_bottom [of "state_stack s"] show ?thesis by simp
qed

theorem stack_invariant_witness:
  "reachable ''<a'' \<lparr>cursor = 1, state_stack = [Root, Modifier]\<rparr>
   \<and> state_stack \<lparr>cursor = 1, state_stack = [Root, Modifier]\<rparr> \<noteq> []
   \<and> hd (state_stack \<lparr>cursor = 1, state_stack = [Root, Modifier]\<rparr>) = Root
   \<and> hd (apply_action (Some Pop) (state_stack \<lparr>cursor = 1, state_stack = [Root, Modifier]\<rparr>)) = Root"
proof -
  let ?s0 = "\<lparr>cursor = 0, state_stack = [Root]\<rparr>"
  have s: "snd (step ''<a'' ?s0) = \<lparr>cursor = 1, state_stack = [Root, Modifier]\<rparr>"
    by code_simp
  have "reachable ''<a'' ?s0" by (rule reachable.start)
  then have "reachable ''<a'' (snd (step ''<a'' ?s0))" by (rule reachable.turn) simp
  with s have r: "reachable ''<a'' \<lparr>cursor = 1, state_stack = [Root, Modifier]\<rparr>" by simp
  from stack_invariant [OF r] r show ?thesis by blast
qed

section \<open>Line comments\<close>

text \<open>
  A greedy run of characters other than \<open>c\<close> followed by \<open>c\<close> itself: the matcher gives up
  every shorter run, so the pattern ends just after the first \<open>c\<close>, if there is one.
\<close>

lemma run_until_gen:
  assumes F: "\<And>e. F e = (if e < length t \<and> t ! e = c then [Suc e] else [])"
  shows "length t - j = k \<Longrightarrow>
   concat (map F (run (NotIn [Ch c]) t j)) =
     (if j + length (takeWhile (\<lambda>x. x \<noteq> c) (drop j t)) < length t
      then [Suc (j + length (takeWhile (\<lambda>x. x \<noteq> c) (drop j t)))] else [])"
proof (induction k arbitrary: j)
  case 0
  then have "drop j t = []" and "\<not> j < length t" by simp_all
  then show ?case by (subst run.simps) (simp add: F)
next
  case (Suc k)
  then have j: "j < length t" by simp
  then have d: "drop j t = t ! j # drop (Suc j) t" by (simp add: Cons_nth_drop_Suc)
  show ?case
  proof (cases "t ! j = c")
    case True
    with j d show ?thesis by (subst run.simps) (simp add: F)
  next
    case False
    from j False have r: "run (NotIn [Ch c]) t j = run (NotIn [Ch c]) t (Suc j) @ [j]"
      by (subst run.simps) simp
    from False have "F j = []" by (simp add: F)
    with r have "concat (map F (run (NotIn [Ch c]) t j))
        = concat (map F (run (NotIn [Ch c]) t (Suc j)))" by simp
    moreover from Suc.prems have "length t - Suc j = k" by simp
    note Suc.IH [OF this]
    moreover from d False have "length (takeWhile (\<lambda>x. x \<noteq> c) (drop j t))
        = Suc (length (takeWhile (\<lambda>x. x \<noteq> c) (drop (Suc j) t)))" by simp
    ultimately show ?thesis by simp
  qed
qed

lemma run_until_aux:
  "concat (map (ms (Lit [c]) t) (run (NotIn [Ch c]) t j)) =
     (if j + length (takeWhile (\<lambda>x. x \<noteq> c) (drop j t)) < length t
      then [Suc (j + length (takeWhile (\<lambda>x. x \<noteq> c) (drop j t)))] else [])"
  by (rule run_until_gen [OF _ refl]) simp

lemma takeWhile_all: "c \<notin> set xs \<Longrightarrow> takeWhile (\<lambda>x. x \<noteq> c) xs = xs"
  by (induction xs) auto

lemma takeWhile_stops: "c \<in> set xs \<Longrightarrow> length (takeWhile (\<lambda>x. x \<noteq> c) xs) < length xs"
  by (induction xs) auto

lemma run_until_none:
  assumes "c \<notin> set (drop j t)"
  shows "concat (map (ms (Lit [c]) t) (run (NotIn [Ch c]) t j)) = []"
proof -
  from assms have "length (takeWhile (\<lambda>x. x \<noteq> c) (drop j t)) = length t - j"
    by (simp add: takeWhile_all)
  then show ?thesis by (simp add: run_until_aux)
qed

lemma run_until_some:
  assumes "c \<in> set (drop j t)"
  shows "concat (map (ms (Lit [c]) t) (run (NotIn [Ch c]) t j)) =
     [Suc (j + length (takeWhile (\<lambda>x. x \<noteq> c) (drop j t)))]"
proof -
  from takeWhile_stops [OF assms]
  have "j + length (takeWhile (\<lambda>x. x \<noteq> c) (drop j t)) < length t" by simp
  then show ?thesis by (simp add: run_until_aux)
qed

lemmas table_defs = Plus_def integer_rx_def ident_tail_def keywords_decl_def keywords_type_def
  keywords_reserved_def builtin_types_classical_def builtin_types_quantum_def
  bool_literals_def quantum_bool_literals_def

lemma root_line_comment_some:
  assumes "starts ''//'' t i" and "LF \<in> set (drop (i + 2) t)"
  shows "first_match root_rules t i =
     Some (i + 3 + length (takeWhile (\<lambda>x. x \<noteq> LF) (drop (i + 2) t)), Comment_Single, None)"
proof -
  from assms(1) have "i < length t" and "t ! i = CHR ''/''" by simp_all
  then have "rexmatch (Plus (In [Ch CHR '' '', Ch TAB, Ch CR, Ch LF, Ch CHR '','', Ch CHR '';''])) t i = None"
    by (simp add: rexmatch_def Plus_def)
  moreover from assms run_until_some [of LF "i + 2" t]
  have "rexmatch (Seq (Lit ''//'') (Seq (Star (NotIn [Ch LF])) (Lit [LF]))) t i
      = Some (i + 3 + length (takeWhile (\<lambda>x. x \<noteq> LF) (drop (i + 2) t)))"
    by (simp add: rexmatch_def)
  ultimately show ?thesis by (simp add: root_rules_def)
qed

lemma root_line_comment_none:
  assumes "starts ''//'' t i" and "LF \<notin> set (drop (i + 2) t)"
  shows "first_match root_rules t i = None"
proof -
  from assms(1) have i: "i < length t" "t ! i = CHR ''/''" "Suc i < length t" "t ! Suc i = CHR ''/''"
    by simp_all
  from assms(2) run_until_none [of LF "i + 2" t]
  have r: "concat (map (ms (Lit [LF]) t) (run (NotIn [Ch LF]) t (Suc (Suc i)))) = []" by simp
  show ?thesis
    by (simp add: root_rules_def rexmatch_def table_defs i r ord_def is_digit_def is_space_def)
qed


lemma take_until:
  "c \<in> set xs \<Longrightarrow>
     take (Suc (length (takeWhile (\<lambda>x. x \<noteq> c) xs))) xs = takeWhile (\<lambda>x. x \<noteq> c) xs @ [c]"
  by (induction xs) auto

lemma slice_line_comment:
  assumes "starts ''//'' t i" and "LF \<in> set (drop (i + 2) t)"
  shows "slice t i (i + 3 + length (takeWhile (\<lambda>x. x \<noteq> LF) (drop (i + 2) t)))
     = ''//'' @ takeWhile (\<lambda>x. x \<noteq> LF) (drop (i + 2) t) @ [LF]"
proof -
  from assms(1) have i: "i < length t" "t ! i = CHR ''/''" "Suc i < length t"
    "t ! Suc i = CHR ''/''" by simp_all
  from i(1) have "drop i t = t ! i # drop (Suc i) t" by (simp add: Cons_nth_drop_Suc)
  moreover from i(3) have "drop (Suc i) t = t ! Suc i # drop (Suc (Suc i)) t"
    by (simp add: Cons_nth_drop_Suc)
  ultimately have d: "drop i t = CHR ''/'' # CHR ''/'' # drop (Suc (Suc i)) t"
    using i by simp
  from assms(2) have "LF \<in> set (drop (Suc (Suc i)) t)" by simp
  from take_until [OF this] d show ?thesis by (simp add: slice_def numeral_3_eq_3)
qed

text \<open>
  C6, as stated, fails: in \<open>//a\<close> the comment is the last line and no line feed ends it;
  the comment pattern \<open>//[^\n]*\n\<close> does not match, and the two slashes come out as
  \<open>Error\<close> tokens.
\<close>

theorem line_comment_counterexample:
  "tokenize ''//a'' =
     Some [\<lparr>kind = Error, lexeme = ''/'', start_offset = 0, end_offset = 1\<rparr>,
           \<lparr>kind = Error, lexeme = ''/'', start_offset = 1, end_offset = 2\<rparr>,
           \<lparr>kind = Name, lexeme = ''a'', start_offset = 2, end_offset = 3\<rparr>]
   \<and> rexmatch (Seq (Lit ''//'') (Seq (Star (NotIn [Ch LF])) (Lit [LF]))) ''//a'' 0 = None"
  by code_simp

text \<open>
  C6, amended: in the root state with \<open>//\<close> at the cursor, if a line feed follows
  somewhere in the input, the characters from \<open>//\<close> up to and including the first line
  feed are one \<open>Comment.Single\<close> token and the stack is unchanged; if no line feed follows,
  the comment rule does not match and the first slash is an \<open>Error\<close> token of one
  character.
\<close>

theorem line_comment:
  assumes "last (state_stack s) = Root" and "starts ''//'' input (cursor s)"
  shows "(LF \<in> set (drop (cursor s + 2) input) \<longrightarrow>
            step input s =
              ([\<lparr>kind = Comment_Single,
                 lexeme = ''//'' @ takeWhile (\<lambda>x. x \<noteq> LF) (drop (cursor s + 2) input) @ [LF],
                 start_offset = cursor s,
                 end_offset = cursor s + 3
                   + length (takeWhile (\<lambda>x. x \<noteq> LF) (drop (cursor s + 2) input))\<rparr>],
               \<lparr>cursor = cursor s + 3
                   + length (takeWhile (\<lambda>x. x \<noteq> LF) (drop (cursor s + 2) input)),
                state_stack = state_stack s\<rparr>))
       \<and> (LF \<notin> set (drop (cursor s + 2) input) \<longrightarrow>
            rexmatch (Seq (Lit ''//'') (Seq (Star (NotIn [Ch LF])) (Lit [LF]))) input (cursor s)
              = None
            \<and> step input s =
              ([\<lparr>kind = Error, lexeme = ''/'', start_offset = cursor s,
                 end_offset = cursor s + 1\<rparr>],
               s\<lparr>cursor := cursor s + 1\<rparr>))"
proof (intro conjI impI)
  assume nl: "LF \<in> set (drop (cursor s + 2) input)"
  from assms(2) have le: "cursor s \<le> length input" by simp
  from root_line_comment_some [OF assms(2) nl] assms(1)
  have "first_match (tokens (last (state_stack s))) input (cursor s)
      = Some (cursor s + 3 + length (takeWhile (\<lambda>x. x \<noteq> LF) (drop (cursor s + 2) input)),
          Comment_Single, None)" by simp
  from step_match [OF this le] slice_line_comment [OF assms(2) nl]
  show "step input s =
      ([\<lparr>kind = Comment_Single,
         lexeme = ''//'' @ takeWhile (\<lambda>x. x \<noteq> LF) (drop (cursor s + 2) input) @ [LF],
         start_offset = cursor s,
         end_offset = cursor s + 3
           + length (takeWhile (\<lambda>x. x \<noteq> LF) (drop (cursor s + 2) input))\<rparr>],
       \<lparr>cursor = cursor s + 3
           + length (takeWhile (\<lambda>x. x \<noteq> LF) (drop (cursor s + 2) input)),
        state_stack = state_stack s\<rparr>)" by simp
next
  assume nl: "LF \<notin> set (drop (cursor s + 2) input)"
  from nl run_until_none [of LF "cursor s + 2" input]
  have r: "concat (map (ms (Lit [LF]) input) (run (NotIn [Ch LF]) input (Suc (Suc (cursor s))))) = []"
    by simp
  from assms(2) have "cursor s < length input" "input ! cursor s = CHR ''/''"
    "Suc (cursor s) < length input" "input ! Suc (cursor s) = CHR ''/''" by simp_all
  then show "rexmatch (Seq (Lit ''//'') (Seq (Star (NotIn [Ch LF])) (Lit [LF]))) input (cursor s) = None"
    by (simp add: rexmatch_def r)
next
  assume nl: "LF \<notin> set (drop (cursor s + 2) input)"
  from root_line_comment_none [OF assms(2) nl] assms(1)
  have "first_match (tokens (last (state_stack s))) input (cursor s) = None" by simp
  from step_fallback [OF this] assms(2)
  show "step input s =
      ([\<lparr>kind = Error, lexeme = ''/'', start_offset = cursor s, end_offset = cursor s + 1\<rparr>],
       s\<lparr>cursor := cursor s + 1\<rparr>)" by simp
qed

theorem line_comment_witness:
  "last (state_stack \<lparr>cursor = 2, state_stack = [Root]\<rparr>) = Root
   \<and> starts ''//'' [CHR ''x'', CHR '' '', CHR ''/'', CHR ''/'', CHR ''c'', LF, CHR ''y'']
        (cursor \<lparr>cursor = 2, state_stack = [Root]\<rparr>)
   \<and> LF \<in> set (drop (cursor \<lparr>cursor = 2, state_stack = [Root]\<rparr> + 2)
        [CHR ''x'', CHR '' '', CHR ''/'', CHR ''/'', CHR ''c'', LF, CHR ''y''])
   \<and> step [CHR ''x'', CHR '' '', CHR ''/'', CHR ''/'', CHR ''c'', LF, CHR ''y'']
        \<lparr>cursor = 2, state_stack = [Root]\<rparr> =
       ([\<lparr>kind = Comment_Single, lexeme = [CHR ''/'', CHR ''/'', CHR ''c'', LF],
          start_offset = 2, end_offset = 6\<rparr>], \<lparr>cursor = 6, state_stack = [Root]\<rparr>)
   \<and> starts ''//'' ''x //c'' (cursor \<lparr>cursor = 2, state_stack = [Root]\<rparr>)
   \<and> LF \<notin> set (drop (cursor \<lparr>cursor = 2, state_stack = [Root]\<rparr> + 2) ''x //c'')
   \<and> step ''x //c'' \<lparr>cursor = 2, state_stack = [Root]\<rparr> =
       ([\<lparr>kind = Error, lexeme = ''/'', start_offset = 2, end_offset = 3\<rparr>],
        \<lparr>cursor = 3, state_stack = [Root]\<rparr>)"
proof -
  let ?s = "\<lparr>cursor = 2, state_stack = [Root]\<rparr>"
  let ?t = "[CHR ''x'', CHR '' '', CHR ''/'', CHR ''/'', CHR ''c'', LF, CHR ''y'']"
  have a: "last (state_stack ?s) = Root" by simp
  have b: "starts ''//'' ?t (cursor ?s)" by simp
  have c: "LF \<in> set (drop (cursor ?s + 2) ?t)" by simp
  have b': "starts ''//'' ''x //c'' (cursor ?s)" by simp
  have c': "LF \<notin> set (drop (cursor ?s + 2) ''x //c'')" by simp
  from line_comment [OF a b] c
  have "step ?t ?s = ([\<lparr>kind = Comment_Single,
      lexeme = ''//'' @ takeWhile (\<lambda>x. x \<noteq> LF) (drop (cursor ?s + 2) ?t) @ [LF],
      start_offset = cursor ?s,
      end_offset = cursor ?s + 3 + length (takeWhile (\<lambda>x. x \<noteq> LF) (drop (cursor ?s + 2) ?t))\<rparr>],
      \<lparr>cursor = cursor ?s + 3 + length (takeWhile (\<lambda>x. x \<noteq> LF) (drop (cursor ?s + 2) ?t)),
       state_stack = state_stack ?s\<rparr>)" by blast
  then have 1: "step ?t ?s = ([\<lparr>kind = Comment_Single, lexeme = [CHR ''/'', CHR ''/'', CHR ''c'', LF],
          start_offset = 2, end_offset = 6\<rparr>], \<lparr>cursor = 6, state_stack = [Root]\<rparr>)" by simp
  from line_comment [OF a b'] c'
  have "step ''x //c'' ?s = ([\<lparr>kind = Error, lexeme = ''/'', start_offset = cursor ?s,
      end_offset = cursor ?s + 1\<rparr>], ?s\<lparr>cursor := cursor ?s + 1\<rparr>)" by blast
  then have 2: "step ''x //c'' ?s = ([\<lparr>kind = Error, lexeme = ''/'', start_offset = 2, end_offset = 3\<rparr>],
        \<lparr>cursor = 3, state_stack = [Root]\<rparr>)" by simp
  from a b c b' c' 1 2 show ?thesis by blast
qed

section \<open>Unterminated string literals\<close>

lemma root_open_quote_none:
  assumes "i < length t" and "t ! i = DQUOTE" and "DQUOTE \<notin> set (drop (Suc i) t)"
  shows "first_match root_rules t i = None"
proof -
  from assms(3) run_until_none [of DQUOTE "Suc i" t]
  have r: "concat (map (ms (Lit [DQUOTE]) t) (run (NotIn [Ch DQUOTE]) t (Suc i))) = []" by simp
  show ?thesis
    by (simp add: root_rules_def rexmatch_def table_defs assms(1,2) r ord_def is_digit_def
        is_space_def)
qed

text \<open>
  C10 (unterminated strings): in the root state, when the character at the cursor is a
  double quote and no second double quote follows before the end of the input, the
  string pattern \<open>"[^"]*"\<close> does not match; the opening quote is emitted as an \<open>Error\<close>
  token of one character, and scanning goes on at the next character.
\<close>

theorem unterminated_string:
  assumes "last (state_stack s) = Root" and "cursor s < length input"
    and "input ! cursor s = DQUOTE" and "DQUOTE \<notin> set (drop (Suc (cursor s)) input)"
  shows "rexmatch (Seq (Lit [DQUOTE]) (Seq (Star (NotIn [Ch DQUOTE])) (Lit [DQUOTE]))) input
           (cursor s) = None
     \<and> step input s =
         ([\<lparr>kind = Error, lexeme = [DQUOTE], start_offset = cursor s,
            end_offset = cursor s + 1\<rparr>], s\<lparr>cursor := cursor s + 1\<rparr>)
     \<and> (\<exists>rest. scan input (s\<lparr>cursor := cursor s + 1\<rparr>) = Some rest
          \<and> scan input s = Some (\<lparr>kind = Error, lexeme = [DQUOTE], start_offset = cursor s,
               end_offset = cursor s + 1\<rparr> # rest))"
proof (intro conjI)
  from assms(4) run_until_none [of DQUOTE "Suc (cursor s)" input]
  have r: "concat (map (ms (Lit [DQUOTE]) input) (run (NotIn [Ch DQUOTE]) input (Suc (cursor s)))) = []"
    by simp
  show "rexmatch (Seq (Lit [DQUOTE]) (Seq (Star (NotIn [Ch DQUOTE])) (Lit [DQUOTE]))) input
      (cursor s) = None"
    by (simp add: rexmatch_def assms(2,3) r)
next
  from root_open_quote_none [OF assms(2-4)] assms(1)
  have n: "first_match (tokens (last (state_stack s))) input (cursor s) = None" by simp
  from step_fallback [OF n] assms(3)
  show "step input s =
      ([\<lparr>kind = Error, lexeme = [DQUOTE], start_offset = cursor s, end_offset = cursor s + 1\<rparr>],
       s\<lparr>cursor := cursor s + 1\<rparr>)" by simp
  from scan_after_fallback [OF assms(2) n] assms(3)
  show "\<exists>rest. scan input (s\<lparr>cursor := cursor s + 1\<rparr>) = Some rest
      \<and> scan input s = Some (\<lparr>kind = Error, lexeme = [DQUOTE], start_offset = cursor s,
           end_offset = cursor s + 1\<rparr> # rest)" by simp
qed

theorem unterminated_string_witness:
  "last (state_stack \<lparr>cursor = 2, state_stack = [Root]\<rparr>) = Root
   \<and> cursor \<lparr>cursor = 2, state_stack = [Root]\<rparr> < length [CHR ''x'', CHR ''='', DQUOTE, CHR ''a'']
   \<and> [CHR ''x'', CHR ''='', DQUOTE, CHR ''a''] ! cursor \<lparr>cursor = 2, state_stack = [Root]\<rparr> = DQUOTE
   \<and> DQUOTE \<notin> set (drop (Suc (cursor \<lparr>cursor = 2, state_stack = [Root]\<rparr>))
        [CHR ''x'', CHR ''='', DQUOTE, CHR ''a''])
   \<and> step [CHR ''x'', CHR ''='', DQUOTE, CHR ''a''] \<lparr>cursor = 2, state_stack = [Root]\<rparr> =
       ([\<lparr>kind = Error, lexeme = [DQUOTE], start_offset = 2, end_offset = 3\<rparr>],
        \<lparr>cursor = 3, state_stack = [Root]\<rparr>)"
proof -
  let ?s = "\<lparr>cursor = 2, state_stack = [Root]\<rparr>"
  let ?t = "[CHR ''x'', CHR ''='', DQUOTE, CHR ''a'']"
  have a: "last (state_stack ?s) = Root" by simp
  have b: "cursor ?s < length ?t" by simp
  have c: "?t ! cursor ?s = DQUOTE" by simp
  have d: "DQUOTE \<notin> set (drop (Suc (cursor ?s)) ?t)" by simp
  from unterminated_string [OF a b c d]
  have "step ?t ?s = ([\<lparr>kind = Error, lexeme = [DQUOTE], start_offset = cursor ?s,
      end_offset = cursor ?s + 1\<rparr>], ?s\<lparr>cursor := cursor ?s + 1\<rparr>)" by blast
  then have "step ?t ?s = ([\<lparr>kind = Error, lexeme = [DQUOTE], start_offset = 2, end_offset = 3\<rparr>],
        \<lparr>cursor = 3, state_stack = [Root]\<rparr>)" by simp
  with a b c d show ?thesis by blast
qed

section \<open>The quantum boolean literals\<close>

lemma ms_words_bnd:
  "(ms (Seq (words ws) Bnd) t i = []) =
     (\<forall>w \<in> set ws. \<not> (starts w t i \<and> boundary t (i + length w)))"
  by (induction ws) auto

lemma ms_bnd_first: "ms (Seq Bnd r) t i = (if boundary t i then ms r t i else [])"
  by simp

lemma quantum_bool_shadowed:
  assumes "ms (Seq (words builtin_types_quantum) Bnd) t i = []"
  shows "ms (Seq Bnd (Seq (words quantum_bool_literals) Bnd)) t i = []"
proof -
  have "set quantum_bool_literals \<subseteq> set builtin_types_quantum"
    by (simp add: quantum_bool_literals_def builtin_types_quantum_def)
  with assms have "ms (Seq (words quantum_bool_literals) Bnd) t i = []"
    unfolding ms_words_bnd by blast
  then show ?thesis by (simp only: ms_bnd_first if_cancel)
qed

lemma first_match_append:
  "first_match (xs @ ys) t i =
     (case first_match xs t i of Some v \<Rightarrow> Some v | None \<Rightarrow> first_match ys t i)"
proof (induction xs)
  case Nil
  show ?case by simp
next
  case (Cons x xs)
  obtain r k a where "x = (r, k, a)" by (cases x)
  with Cons show ?case by (simp split: option.splits)
qed

lemma first_match_None_mem:
  "first_match rs t i = None \<Longrightarrow> (r, k, a) \<in> set rs \<Longrightarrow> ms r t i = []"
proof (induction rs)
  case Nil
  then show ?case by simp
next
  case (Cons x rs)
  obtain r' k' a' where x: "x = (r', k', a')" by (cases x)
  from Cons.prems(1) x have h: "ms r' t i = []" and n: "first_match rs t i = None"
    by (simp_all add: rexmatch_def split: list.splits option.splits)
  from Cons.prems(2) x have "(r, k, a) = (r', k', a') \<or> (r, k, a) \<in> set rs" by simp
  then show ?case using h Cons.IH [OF n] by blast
qed


lemma root_rules_split:
  "root_rules = take 9 root_rules
     @ (Seq Bnd (Seq (words quantum_bool_literals) Bnd), Name_Constant_Quantum, None)
     # drop 10 root_rules"
  by (simp add: root_rules_def)

lemma root_rules_before:
  "(Seq (words builtin_types_quantum) Bnd, Name_Builtin_Quantum, None) \<in> set (take 9 root_rules)"
  "(r, Name_Constant_Quantum, a) \<notin> set (take 9 root_rules)"
  by (simp_all add: root_rules_def)

lemma root_rules_after: "(r, Name_Constant_Quantum, a) \<notin> set (drop 10 root_rules)"
  by (simp add: root_rules_def)

lemma root_never_quantum_bool:
  assumes "first_match root_rules t i = Some (e, k, a)"
  shows "k \<noteq> Name_Constant_Quantum"
proof (cases "first_match (take 9 root_rules) t i")
  case (Some v)
  have "first_match root_rules t i = Some v"
    by (subst root_rules_split) (simp add: first_match_append Some)
  with assms Some have "first_match (take 9 root_rules) t i = Some (e, k, a)" by simp
  from first_match_Some [OF this] root_rules_before(2) show ?thesis by blast
next
  case None
  from first_match_None_mem [OF None root_rules_before(1)]
  have "ms (Seq (words builtin_types_quantum) Bnd) t i = []" .
  from quantum_bool_shadowed [OF this]
  have q: "rexmatch (Seq Bnd (Seq (words quantum_bool_literals) Bnd)) t i = None"
    by (simp only: rexmatch_def list.case)
  have "first_match root_rules t i = first_match (drop 10 root_rules) t i"
    by (subst root_rules_split) (simp add: first_match_append None q)
  with assms have "first_match (drop 10 root_rules) t i = Some (e, k, a)" by simp
  from first_match_Some [OF this] root_rules_after show ?thesis by blast
qed

lemma never_quantum_bool:
  assumes "first_match (tokens st) t i = Some (e, k, a)"
  shows "k \<noteq> Name_Constant_Quantum"
proof (cases st)
  case Root
  with assms root_never_quantum_bool show ?thesis by simp
next
  case Comment
  with first_match_Some [OF assms] show ?thesis by (auto simp: comment_rules_def)
next
  case Trait_list
  with first_match_Some [OF assms] show ?thesis by (auto simp: trait_list_rules_def)
next
  case Modifier
  with first_match_Some [OF assms] show ?thesis by (auto simp: modifier_rules_def)
qed

lemma step_never_quantum_bool: "x \<in> set (fst (step input s)) \<Longrightarrow> kind x \<noteq> Name_Constant_Quantum"
proof (cases "first_match (tokens (last (state_stack s))) input (cursor s)")
  case None
  assume "x \<in> set (fst (step input s))"
  with None show ?thesis by (simp add: step_def)
next
  case (Some v)
  obtain e k a where v: "v = (e, k, a)" by (cases v)
  assume "x \<in> set (fst (step input s))"
  with Some v have "kind x = k" by (simp add: step_def Let_def)
  with never_quantum_bool [OF Some [unfolded v]] show ?thesis by simp
qed

lemma scan_never_quantum_bool:
  "length input - cursor s = n \<Longrightarrow> cursor s \<le> length input \<Longrightarrow> scan input s = Some ts \<Longrightarrow>
     Name_Constant_Quantum \<notin> set (map kind ts)"
proof (induction n arbitrary: s ts rule: less_induct)
  case (less n)
  show ?case
  proof (cases "cursor s < length input")
    case False
    with less.prems(3) have "ts = []" by (subst (asm) scan.simps) simp
    then show ?thesis by simp
  next
    case True
    from step_shape [OF True] obtain k e st where e: "cursor s < e" "e \<le> length input"
      and st: "snd (step input s) = \<lparr>cursor = e, state_stack = st\<rparr>" by force
    from less.prems(3) True obtain rest where rest: "scan input (snd (step input s)) = Some rest"
      and ts: "ts = fst (step input s) @ rest"
      by (subst (asm) scan.simps) (auto simp: Let_def split: bind_splits)
    have "length input - cursor (snd (step input s)) < n" using e st less.prems(1) True by simp
    from less.IH [OF this refl _ rest] e st
    have "Name_Constant_Quantum \<notin> set (map kind rest)" by simp
    moreover have "Name_Constant_Quantum \<notin> set (map kind (fst (step input s)))"
      using step_never_quantum_bool [of _ input s] by (metis (no_types) imageE list.set_map)
    ultimately show ?thesis using ts by simp
  qed
qed


lemma quantum_bool_needs_word_before:
  assumes "ms (Seq Bnd (Seq (words quantum_bool_literals) Bnd)) t i \<noteq> []"
  shows "0 < i \<and> is_word (t ! (i - 1))"
proof -
  from assms have "(if boundary t i then ms (Seq (words quantum_bool_literals) Bnd) t i else []) \<noteq> []"
    by (simp only: ms_bnd_first simp_thms)
  then have "boundary t i \<and> ms (Seq (words quantum_bool_literals) Bnd) t i \<noteq> []"
    by (cases "boundary t i") (simp_all only: if_True if_False simp_thms)
  then have b: "boundary t i" and m: "ms (Seq (words quantum_bool_literals) Bnd) t i \<noteq> []"
    by blast+
  from m obtain w where "w \<in> set quantum_bool_literals" and "starts w t i"
    unfolding ms_words_bnd by blast
  then have "i < length t" and "t ! i = CHR ''@''"
    by (auto simp: quantum_bool_literals_def)
  then have "\<not> (i < length t \<and> is_word (t ! i))"
    by (simp add: is_word_def is_digit_def ord_def)
  with b show ?thesis by (auto simp: boundary_def)
qed

text \<open>
  C9 (the quantum boolean rule is dead): for every input, no token of the output has
  the type \<open>Name.Constant.Quantum\<close>. The words \<open>@false\<close> and \<open>@true\<close> are also quantum
  builtin type names, whose rule stands earlier in the table and matches wherever the
  quantum boolean pattern does; and that pattern needs a word character just before the
  \<open>@\<close> sigil.
\<close>

theorem quantum_bool_unreachable:
  "(\<exists>ts. tokenize input = Some ts \<and> Name_Constant_Quantum \<notin> set (map kind ts))
   \<and> set quantum_bool_literals \<subseteq> set builtin_types_quantum
   \<and> (\<forall>i. rexmatch (Seq Bnd (Seq (words quantum_bool_literals) Bnd)) input i \<noteq> None \<longrightarrow>
         rexmatch (Seq (words builtin_types_quantum) Bnd) input i \<noteq> None
         \<and> 0 < i \<and> is_word (input ! (i - 1)))"
proof (intro conjI allI impI)
  from scan_from_start [of input] obtain ts where ts: "tokenize input = Some ts" by blast
  then have "scan input \<lparr>cursor = 0, state_stack = [Root]\<rparr> = Some ts"
    by (simp add: tokenize_def)
  from scan_never_quantum_bool [OF refl _ this]
  have "Name_Constant_Quantum \<notin> set (map kind ts)" by simp
  with ts show "\<exists>ts. tokenize input = Some ts \<and> Name_Constant_Quantum \<notin> set (map kind ts)"
    by blast
next
  show "set quantum_bool_literals \<subseteq> set builtin_types_quantum"
    by (simp add: quantum_bool_literals_def builtin_types_quantum_def)
next
  fix i
  assume "rexmatch (Seq Bnd (Seq (words quantum_bool_literals) Bnd)) input i \<noteq> None"
  then have "ms (Seq Bnd (Seq (words quantum_bool_literals) Bnd)) input i \<noteq> []"
    by (auto simp only: rexmatch_def split: list.splits)
  with quantum_bool_shadowed [of input i]
  have "ms (Seq (words builtin_types_quantum) Bnd) input i \<noteq> []" by blast
  then show "rexmatch (Seq (words builtin_types_quantum) Bnd) input i \<noteq> None"
    by (auto simp only: rexmatch_def split: list.splits)
next
  fix i
  assume "rexmatch (Seq Bnd (Seq (words quantum_bool_literals) Bnd)) input i \<noteq> None"
  then have m: "ms (Seq Bnd (Seq (words quantum_bool_literals) Bnd)) input i \<noteq> []"
    by (auto simp only: rexmatch_def split: list.splits)
  from quantum_bool_needs_word_before [OF m] show "0 < i" by simp
  from quantum_bool_needs_word_before [OF m] show "is_word (input ! (i - 1))" by simp
qed

theorem quantum_bool_unreachable_witness:
  "rexmatch (Seq Bnd (Seq (words quantum_bool_literals) Bnd)) ''a@true'' 1 \<noteq> None
   \<and> rexmatch (Seq (words builtin_types_quantum) Bnd) ''a@true'' 1 \<noteq> None
   \<and> (0::nat) < 1 \<and> is_word (''a@true'' ! (1 - 1))"
proof -
  have h: "rexmatch (Seq Bnd (Seq (words quantum_bool_literals) Bnd)) ''a@true'' 1 \<noteq> None"
    by code_simp
  from quantum_bool_unreachable [of "''a@true''"] h
  have "rexmatch (Seq (words builtin_types_quantum) Bnd) ''a@true'' 1 \<noteq> None
         \<and> (0::nat) < 1 \<and> is_word (''a@true'' ! (1 - 1))" by blast
  with h show ?thesis by blast
qed

end
